theory Spec2Isabelle
  imports Complex_Main "HOL-Library.Word"
begin

section \<open>WeatherBusLite: the master-side query/response driver\<close>

text \<open>
  The library polls one sensor node over a half-duplex RS485 bus. A query is the text
  \<open>?X\<close> and a line terminator; the answer is read byte by byte by a three-state
  machine inside a busy-poll loop that gives up after a fixed number of milliseconds.

  The model follows \<open>WeatherBusLite.cpp\<close> function by function. What the C++ does to
  the outside world is made explicit:
  \<^item> the calls on the global \<open>RS485\<close> object (and \<open>delay\<close>) are appended to a log of
    \<open>bus_call\<close>s, in program order;
  \<^item> what the loop reads from the outside world is a list of \<open>poll\<close>s, one per loop
    iteration: the value \<open>millis()\<close> returned in the loop condition, and the byte
    \<open>RS485.read()\<close> returned when \<open>RS485.available()\<close> was non-zero;
  \<^item> the \<open>float &value\<close> parameter is passed in and passed back;
  \<^item> a write or read outside \<open>char response[32]\<close> is the fault \<open>OutOfBounds\<close>;
  \<^item> \<open>atof\<close> belongs to the C library, so every operation takes it as a parameter.
\<close>

subsection \<open>Constants of the header\<close>

definition WEATHERBUSLITE_BAUDRATE :: "32 word" where
  "WEATHERBUSLITE_BAUDRATE = 9600"

definition WEATHERBUSLITE_RESPONSE_TIMEOUT :: "32 word" where
  "WEATHERBUSLITE_RESPONSE_TIMEOUT = 1000"

definition WEATHERBUSLITE_GRACE :: nat where
  "WEATHERBUSLITE_GRACE = 2"

text \<open>\<open>sizeof(response)\<close> for \<open>char response[32]\<close>.\<close>

definition RESPONSE_SIZE :: nat where
  "RESPONSE_SIZE = 32"

abbreviation NUL :: char where
  "NUL \<equiv> CHR 0x00"

abbreviation LF :: char where
  "LF \<equiv> CHR 0x0A"

abbreviation COLON :: char where
  "COLON \<equiv> CHR '':''"

subsection \<open>The bus and the clock\<close>

text \<open>The calls the driver makes on the \<open>RS485\<close> object, and \<open>delay\<close>.\<close>

datatype bus_call =
    RS485_begin "32 word"
  | RS485_beginTransmission
  | RS485_print string
  | RS485_println
  | RS485_endTransmission
  | RS485_flush
  | Delay nat
  | RS485_receive
  | RS485_noReceive

text \<open>
  One iteration of the scan loop as the outside world answers it: \<open>millis()\<close>
  (an \<open>unsigned long\<close>, 32 bits on the Arduino targets) and the byte read, if one was
  available.
\<close>

type_synonym poll = "32 word \<times> char option"

subsection \<open>C strings in a fixed buffer\<close>

datatype fault = OutOfBounds

text \<open>\<open>buf[i] = v\<close> on an array: outside the array the behaviour is undefined.\<close>

definition poke :: "char list \<Rightarrow> nat \<Rightarrow> char \<Rightarrow> fault + char list" where
  "poke buf i v = (if i < length buf then Inr (buf[i := v]) else Inl OutOfBounds)"

text \<open>
  \<open>strchr(buf, ch)\<close>: the offset of the first \<open>ch\<close> before the terminating NUL, or
  \<open>None\<close> for the null pointer. A buffer with no NUL is read past its end.
\<close>

fun strchr :: "char list \<Rightarrow> char \<Rightarrow> fault + nat option" where
  "strchr [] ch = Inl OutOfBounds"
| "strchr (x # xs) ch =
     (if x = ch then Inr (Some 0)
      else if x = NUL then Inr None
      else map_sum id (map_option Suc) (strchr xs ch))"

text \<open>The characters a C function reads from a pointer up to the terminating NUL.\<close>

fun c_str :: "char list \<Rightarrow> fault + string" where
  "c_str [] = Inl OutOfBounds"
| "c_str (x # xs) = (if x = NUL then Inr [] else map_sum id ((#) x) (c_str xs))"

subsection \<open>The response state machine\<close>

datatype ParseState = WAIT_FOR_START | READ_PAYLOAD | DONE

record parser =
  state :: ParseState
  response :: "char list"
  index :: nat

text \<open>\<open>state = WAIT_FOR_START; char response[32] = {0}; int index = 0;\<close>\<close>

definition parser_init :: parser where
  "parser_init = \<lparr>state = WAIT_FOR_START, response = replicate RESPONSE_SIZE NUL, index = 0\<rparr>"

text \<open>The \<open>switch (state)\<close> on one incoming byte.\<close>

definition on_byte :: "char \<Rightarrow> char \<Rightarrow> parser \<Rightarrow> fault + parser" where
  "on_byte expectedType incoming p =
     (case state p of
        WAIT_FOR_START \<Rightarrow>
          (if incoming = expectedType then
             (case poke (response p) (index p) incoming of
                Inl e \<Rightarrow> Inl e
              | Inr buf \<Rightarrow>
                  Inr (p\<lparr>response := buf, index := index p + 1, state := READ_PAYLOAD\<rparr>))
           else Inr p)
      | READ_PAYLOAD \<Rightarrow>
          (if incoming = LF \<or> index p \<ge> RESPONSE_SIZE - 1 then
             (case poke (response p) (index p) NUL of
                Inl e \<Rightarrow> Inl e
              | Inr buf \<Rightarrow> Inr (p\<lparr>response := buf, state := DONE\<rparr>))
           else
             (case poke (response p) (index p) incoming of
                Inl e \<Rightarrow> Inl e
              | Inr buf \<Rightarrow> Inr (p\<lparr>response := buf, index := index p + 1\<rparr>)))
      | DONE \<Rightarrow> Inr p)"

text \<open>
  The \<open>if (state == DONE)\<close> block after the switch: \<open>Some v\<close> when a colon was found
  and \<open>value = atof(colonPos + 1)\<close> ran, \<open>None\<close> when the loop goes on.
\<close>

definition on_done :: "(string \<Rightarrow> 'v) \<Rightarrow> parser \<Rightarrow> fault + 'v option" where
  "on_done atof p =
     (if state p = DONE then
        (case strchr (response p) COLON of
           Inl e \<Rightarrow> Inl e
         | Inr None \<Rightarrow> Inr None
         | Inr (Some colonPos) \<Rightarrow>
             (case c_str (drop (colonPos + 1) (response p)) of
                Inl e \<Rightarrow> Inl e
              | Inr s \<Rightarrow> Inr (Some (atof s))))
      else Inr None)"

text \<open>
  How the \<open>while\<close> loop ends: by \<open>return true\<close> from inside, with the value just
  assigned, or by its condition becoming false.
\<close>

datatype 'v loop_exit = ReturnTrue 'v | TimedOut

text \<open>
  The loop over the polls. \<open>None\<close> means that the loop is still running when the
  observed polls end: nothing in the code bounds the number of iterations, only the
  clock does.
\<close>

fun scan :: "(string \<Rightarrow> 'v) \<Rightarrow> char \<Rightarrow> 32 word \<Rightarrow> poll list \<Rightarrow> parser
    \<Rightarrow> (fault + 'v loop_exit) option" where
  "scan atof expectedType startMillis [] p = None"
| "scan atof expectedType startMillis ((now, avail) # polls) p =
     (if now - startMillis < WEATHERBUSLITE_RESPONSE_TIMEOUT then
        (case avail of
           None \<Rightarrow> scan atof expectedType startMillis polls p
         | Some incoming \<Rightarrow>
             (case on_byte expectedType incoming p of
                Inl e \<Rightarrow> Some (Inl e)
              | Inr p' \<Rightarrow>
                  (case on_done atof p' of
                     Inl e \<Rightarrow> Some (Inl e)
                   | Inr (Some v) \<Rightarrow> Some (Inr (ReturnTrue v))
                   | Inr None \<Rightarrow> scan atof expectedType startMillis polls p')))
      else Some (Inr TimedOut))"

subsection \<open>The operations of the class\<close>

text \<open>
  What a query hands back: the \<open>bool\<close> it returns, the caller's \<open>float\<close> after the
  call, and the bus log.
\<close>

record 'v reply =
  ok :: bool
  measurement :: 'v
  bus :: "bus_call list"

definition begin_bus :: "32 word \<Rightarrow> bus_call list \<Rightarrow> bus_call list" where
  "begin_bus baudRate calls = calls @ [RS485_begin baudRate]"

text \<open>\<open>RS485.print\<close> of a \<open>const char*\<close> writes the characters before the first NUL.\<close>

definition sendQuery :: "string \<Rightarrow> bus_call list \<Rightarrow> bus_call list" where
  "sendQuery query calls =
     calls @ [RS485_beginTransmission,
            RS485_print (takeWhile (\<lambda>ch. ch \<noteq> NUL) query),
            RS485_println,
            RS485_endTransmission,
            RS485_flush,
            Delay WEATHERBUSLITE_GRACE]"

definition parseResponse :: "(string \<Rightarrow> 'v) \<Rightarrow> char \<Rightarrow> 'v \<Rightarrow> 32 word \<Rightarrow> poll list
    \<Rightarrow> bus_call list \<Rightarrow> (fault + 'v reply) option" where
  "parseResponse atof expectedType v startMillis polls calls =
     (case scan atof expectedType startMillis polls parser_init of
        None \<Rightarrow> None
      | Some (Inl e) \<Rightarrow> Some (Inl e)
      | Some (Inr (ReturnTrue v')) \<Rightarrow>
          Some (Inr \<lparr>ok = True, measurement = v', bus = calls @ [RS485_receive]\<rparr>)
      | Some (Inr TimedOut) \<Rightarrow>
          Some (Inr \<lparr>ok = False, measurement = v,
                     bus = calls @ [RS485_receive, RS485_noReceive]\<rparr>))"

definition queryCustom :: "(string \<Rightarrow> 'v) \<Rightarrow> char \<Rightarrow> 'v \<Rightarrow> 32 word \<Rightarrow> poll list
    \<Rightarrow> bus_call list \<Rightarrow> (fault + 'v reply) option" where
  "queryCustom atof queryType v startMillis polls calls =
     parseResponse atof queryType v startMillis polls
       (sendQuery [CHR ''?'', queryType, NUL] calls)"

text \<open>The string literal \<open>"?T"\<close> is the array \<open>'?', 'T', NUL\<close>.\<close>

definition queryTemp :: "(string \<Rightarrow> 'v) \<Rightarrow> 'v \<Rightarrow> 32 word \<Rightarrow> poll list
    \<Rightarrow> bus_call list \<Rightarrow> (fault + 'v reply) option" where
  "queryTemp atof v startMillis polls calls =
     parseResponse atof (CHR ''T'') v startMillis polls (sendQuery (''?T'' @ [NUL]) calls)"

definition queryHumidity :: "(string \<Rightarrow> 'v) \<Rightarrow> 'v \<Rightarrow> 32 word \<Rightarrow> poll list
    \<Rightarrow> bus_call list \<Rightarrow> (fault + 'v reply) option" where
  "queryHumidity atof v startMillis polls calls =
     parseResponse atof (CHR ''H'') v startMillis polls (sendQuery (''?H'' @ [NUL]) calls)"

definition queryPressure :: "(string \<Rightarrow> 'v) \<Rightarrow> 'v \<Rightarrow> 32 word \<Rightarrow> poll list
    \<Rightarrow> bus_call list \<Rightarrow> (fault + 'v reply) option" where
  "queryPressure atof v startMillis polls calls =
     parseResponse atof (CHR ''P'') v startMillis polls (sendQuery (''?P'' @ [NUL]) calls)"

definition queryAirQuality :: "(string \<Rightarrow> 'v) \<Rightarrow> 'v \<Rightarrow> 32 word \<Rightarrow> poll list
    \<Rightarrow> bus_call list \<Rightarrow> (fault + 'v reply) option" where
  "queryAirQuality atof v startMillis polls calls =
     parseResponse atof (CHR ''A'') v startMillis polls (sendQuery (''?A'' @ [NUL]) calls)"

definition queryUV :: "(string \<Rightarrow> 'v) \<Rightarrow> 'v \<Rightarrow> 32 word \<Rightarrow> poll list
    \<Rightarrow> bus_call list \<Rightarrow> (fault + 'v reply) option" where
  "queryUV atof v startMillis polls calls =
     parseResponse atof (CHR ''U'') v startMillis polls (sendQuery (''?U'' @ [NUL]) calls)"

definition queryRainfall :: "(string \<Rightarrow> 'v) \<Rightarrow> 'v \<Rightarrow> 32 word \<Rightarrow> poll list
    \<Rightarrow> bus_call list \<Rightarrow> (fault + 'v reply) option" where
  "queryRainfall atof v startMillis polls calls =
     parseResponse atof (CHR ''R'') v startMillis polls (sendQuery (''?R'' @ [NUL]) calls)"

definition queryWindSpeed :: "(string \<Rightarrow> 'v) \<Rightarrow> 'v \<Rightarrow> 32 word \<Rightarrow> poll list
    \<Rightarrow> bus_call list \<Rightarrow> (fault + 'v reply) option" where
  "queryWindSpeed atof v startMillis polls calls =
     parseResponse atof (CHR ''W'') v startMillis polls (sendQuery (''?W'' @ [NUL]) calls)"

definition queryWindDirection :: "(string \<Rightarrow> 'v) \<Rightarrow> 'v \<Rightarrow> 32 word \<Rightarrow> poll list
    \<Rightarrow> bus_call list \<Rightarrow> (fault + 'v reply) option" where
  "queryWindDirection atof v startMillis polls calls =
     parseResponse atof (CHR ''D'') v startMillis polls (sendQuery (''?D'' @ [NUL]) calls)"

definition queryCanopyTemperature :: "(string \<Rightarrow> 'v) \<Rightarrow> 'v \<Rightarrow> 32 word \<Rightarrow> poll list
    \<Rightarrow> bus_call list \<Rightarrow> (fault + 'v reply) option" where
  "queryCanopyTemperature atof v startMillis polls calls =
     parseResponse atof (CHR ''C'') v startMillis polls (sendQuery (''?C'' @ [NUL]) calls)"

subsection \<open>Decimal conversion\<close>

text \<open>
  Modelled from the spec: the character classes and the readers of sign, digits,
  fraction and exponent that the model of \<open>atof\<close> below is made of. \<open>atof\<close> and
  they are the C library's; the repository only calls \<open>atof\<close>.
\<close>

definition isspace :: "char \<Rightarrow> bool" where
  "isspace ch = (ch \<in> set [CHR '' '', CHR 0x09, CHR 0x0A, CHR 0x0B, CHR 0x0C, CHR 0x0D])"

definition isdigit :: "char \<Rightarrow> bool" where
  "isdigit ch = (ch \<in> set ''0123456789'')"

text \<open>The value of a digit is its place in \<open>0123456789\<close>.\<close>

definition digit_value :: "char \<Rightarrow> nat" where
  "digit_value ch = length (takeWhile (\<lambda>d. d \<noteq> ch) ''0123456789'')"

definition digits_value :: "string \<Rightarrow> nat" where
  "digits_value ds = foldl (\<lambda>acc ch. 10 * acc + digit_value ch) 0 ds"

definition take_sign :: "string \<Rightarrow> bool \<times> string" where
  "take_sign s =
     (case s of
        [] \<Rightarrow> (False, s)
      | ch # r \<Rightarrow>
          if ch = CHR ''-'' then (True, r)
          else if ch = CHR ''+'' then (False, r)
          else (False, s))"

definition take_fraction :: "string \<Rightarrow> string \<times> string" where
  "take_fraction s =
     (case s of
        [] \<Rightarrow> ([], s)
      | ch # r \<Rightarrow>
          if ch = CHR ''.'' then (takeWhile isdigit r, dropWhile isdigit r) else ([], s))"

definition take_exponent :: "string \<Rightarrow> bool \<times> nat" where
  "take_exponent s =
     (case s of
        [] \<Rightarrow> (False, 0)
      | ch # r \<Rightarrow>
          if ch = CHR ''e'' \<or> ch = CHR ''E'' then
            (let (neg, r') = take_sign r; ds = takeWhile isdigit r'
             in if ds = [] then (False, 0) else (neg, digits_value ds))
          else (False, 0))"

text \<open>
  Modelled from the spec: \<open>atof\<close> is the C library's, not the repository's. The spec
  (section 4.2) gives its semantic: the text after the colon is read as a
  floating-point literal, "locale-independent, tolerant of leading whitespace, stops at
  first non-numeric character, defaults to 0.0 if nothing numeric is found". The model
  reads optional white space, an optional sign, decimal digits with an optional
  fraction, and an optional decimal exponent, and gives the exact decimal value as a
  rational number: rounding to a binary \<open>float\<close>, infinities and NaN are outside it.
\<close>

definition atof_decimal :: "string \<Rightarrow> rat" where
  "atof_decimal s =
     (let (neg, s1) = take_sign (dropWhile isspace s);
          ip = takeWhile isdigit s1;
          (fp, s2) = take_fraction (dropWhile isdigit s1)
      in if ip = [] \<and> fp = [] then 0
         else
           (let m = of_nat (digits_value (ip @ fp)) / 10 ^ length fp;
                (eneg, e) = take_exponent s2;
                x = (if eneg then m / 10 ^ e else m * 10 ^ e)
            in if neg then - x else x))"

text \<open>
  Modelled from the spec: the characters the spec calls numeric, those a decimal
  literal is written with (digits, the point, the signs and the exponent letter).
\<close>

definition numeric_char :: "char \<Rightarrow> bool" where
  "numeric_char ch = (isdigit ch \<or> ch \<in> set ''.+-eE'')"

subsection \<open>Reading the polls\<close>

text \<open>The bytes a run of polls delivers, and whether all of its polls are in time.\<close>

definition bytes_of :: "poll list \<Rightarrow> char list" where
  "bytes_of polls = List.map_filter snd polls"

definition in_time :: "32 word \<Rightarrow> poll \<Rightarrow> bool" where
  "in_time startMillis pl = (fst pl - startMillis < WEATHERBUSLITE_RESPONSE_TIMEOUT)"

text \<open>Polls that all read the clock as \<open>t\<close> and deliver one byte each.\<close>

definition deliver :: "32 word \<Rightarrow> string \<Rightarrow> poll list" where
  "deliver t bs = map (\<lambda>b. (t, Some b)) bs"

subsection \<open>Vocabulary for the buffer\<close>

text \<open>
  The buffer after the bytes \<open>pre\<close> were stored from offset 0: the rest still holds
  the zeros of its initialisation. \<open>reading pre\<close> and \<open>finished pre\<close> are the
  machine with these bytes buffered, before and after the frame is complete.
  \<open>c_string\<close> is the text a C function sees in the frame, and \<open>after_colon\<close> the text
  \<open>atof\<close> is given: what follows the first colon, up to the first NUL.
\<close>

definition filled :: "char list \<Rightarrow> char list" where
  "filled pre = pre @ replicate (RESPONSE_SIZE - length pre) NUL"

definition reading :: "char list \<Rightarrow> parser" where
  "reading pre = \<lparr>state = READ_PAYLOAD, response = filled pre, index = length pre\<rparr>"

definition finished :: "char list \<Rightarrow> parser" where
  "finished pre = \<lparr>state = DONE, response = filled pre, index = length pre\<rparr>"

definition after_colon :: "string \<Rightarrow> string" where
  "after_colon frame =
     takeWhile (\<lambda>ch. ch \<noteq> NUL) (tl (dropWhile (\<lambda>ch. ch \<noteq> COLON) frame))"

definition c_string :: "string \<Rightarrow> string" where
  "c_string frame = takeWhile (\<lambda>ch. ch \<noteq> NUL) frame"

subsection \<open>Reachable machine states\<close>

text \<open>
  The states the machine can be in at the top of a loop iteration: the initial one, and
  every state that the \<open>switch\<close> leads to from a reachable one on some byte without
  a fault.
\<close>

inductive reachable :: "char \<Rightarrow> parser \<Rightarrow> bool" for expectedType where
  initial: "reachable expectedType parser_init"
| byte: "reachable expectedType p \<Longrightarrow> on_byte expectedType incoming p = Inr p' \<Longrightarrow>
     reachable expectedType p'"

text \<open>
  The invariant of the loop: the buffer keeps its 32 bytes, the index stays below 32,
  it is 0 while the start byte is awaited, and the last byte of the buffer is never
  overwritten, so that the buffer always holds a terminated C string.
\<close>

definition buffer_ok :: "parser \<Rightarrow> bool" where
  "buffer_ok p =
     (length (response p) = RESPONSE_SIZE \<and> index p \<le> RESPONSE_SIZE - 1
      \<and> (state p = WAIT_FOR_START \<longrightarrow> index p = 0)
      \<and> response p ! (RESPONSE_SIZE - 1) = NUL)"

section \<open>Properties\<close>

subsection \<open>Buffer and C string lemmas\<close>

lemma bytes_of_simps [simp]:
  "bytes_of [] = []"
  "bytes_of ((t, None) # polls) = bytes_of polls"
  "bytes_of ((t, Some b) # polls) = b # bytes_of polls"
  by (simp_all add: bytes_of_def List.map_filter_simps)

lemma bytes_of_append [simp]: "bytes_of (ps @ qs) = bytes_of ps @ bytes_of qs"
  by (simp add: bytes_of_def List.map_filter_def)

lemma filled_split:
  assumes "length pre < RESPONSE_SIZE"
  shows "filled pre = pre @ NUL # replicate (RESPONSE_SIZE - 1 - length pre) NUL"
proof -
  have "RESPONSE_SIZE - length pre = Suc (RESPONSE_SIZE - 1 - length pre)"
    using assms by simp
  then show ?thesis by (simp add: filled_def)
qed

lemma poke_filled_byte:
  assumes "length pre < RESPONSE_SIZE"
  shows "poke (filled pre) (length pre) b = Inr (filled (pre @ [b]))"
proof -
  have "RESPONSE_SIZE - 1 - length pre = RESPONSE_SIZE - length (pre @ [b])"
    by simp
  then have "pre @ b # replicate (RESPONSE_SIZE - 1 - length pre) NUL = filled (pre @ [b])"
    by (simp add: filled_def)
  then have "(filled pre)[length pre := b] = filled (pre @ [b])"
    by (simp add: filled_split [OF assms])
  moreover have "length pre < length (filled pre)"
    using assms by (simp add: filled_def)
  ultimately show ?thesis by (simp add: poke_def)
qed

lemma poke_filled_NUL:
  assumes "length pre < RESPONSE_SIZE"
  shows "poke (filled pre) (length pre) NUL = Inr (filled pre)"
proof -
  have "(filled pre)[length pre := NUL] = filled pre"
    by (simp add: filled_split [OF assms])
  moreover have "length pre < length (filled pre)"
    using assms by (simp add: filled_def)
  ultimately show ?thesis by (simp add: poke_def)
qed

lemma strchr_terminated:
  "ch \<noteq> NUL \<Longrightarrow> strchr (xs @ NUL # ys) ch =
     Inr (if ch \<in> set (takeWhile (\<lambda>b. b \<noteq> NUL) xs)
          then Some (length (takeWhile (\<lambda>b. b \<noteq> ch) xs)) else None)"
  by (induction xs) auto

lemma c_str_terminated:
  "c_str (xs @ NUL # ys) = Inr (takeWhile (\<lambda>b. b \<noteq> NUL) xs)"
  by (induction xs) auto

lemma drop_after_colon:
  "COLON \<in> set xs \<Longrightarrow>
     drop (Suc (length (takeWhile (\<lambda>b. b \<noteq> COLON) xs))) xs = tl (dropWhile (\<lambda>b. b \<noteq> COLON) xs)"
  by (induction xs) auto

lemma takeWhile_before_member:
  "x \<in> set xs \<Longrightarrow> length (takeWhile (\<lambda>b. b \<noteq> x) xs) < length xs"
  by (induction xs) auto

lemma on_done_finished:
  assumes "length pre < RESPONSE_SIZE"
  shows "on_done atof (finished pre) =
     Inr (if COLON \<in> set (c_string pre) then Some (atof (after_colon pre)) else None)"
proof (cases "COLON \<in> set (c_string pre)")
  case False
  then show ?thesis
    by (simp add: on_done_def finished_def filled_split [OF assms] strchr_terminated c_string_def)
next
  case True
  then have mem: "COLON \<in> set pre"
    by (auto simp: c_string_def dest: set_takeWhileD)
  let ?k = "length (takeWhile (\<lambda>b. b \<noteq> COLON) pre)"
  have k: "?k < length pre"
    using mem by (rule takeWhile_before_member)
  have "drop (Suc ?k) (pre @ NUL # replicate (RESPONSE_SIZE - 1 - length pre) NUL)
        = tl (dropWhile (\<lambda>b. b \<noteq> COLON) pre) @ NUL # replicate (RESPONSE_SIZE - 1 - length pre) NUL"
    using k drop_after_colon [OF mem] by simp
  with True show ?thesis
    by (simp add: on_done_def finished_def filled_split [OF assms] strchr_terminated
        c_str_terminated c_string_def after_colon_def)
qed


lemma bytes_of_split:
  "bytes_of polls = xs @ ys \<Longrightarrow>
     \<exists>ps qs. polls = ps @ qs \<and> bytes_of ps = xs \<and> bytes_of qs = ys"
proof (induction polls arbitrary: xs)
  case Nil
  then show ?case by simp
next
  case (Cons pl polls)
  obtain t a where pl: "pl = (t, a)" by (cases pl)
  show ?case
  proof (cases a)
    case None
    with Cons.prems pl have "bytes_of polls = xs @ ys" by simp
    from Cons.IH [OF this] obtain ps qs
      where "polls = ps @ qs" "bytes_of ps = xs" "bytes_of qs = ys" by blast
    then have "pl # polls = (pl # ps) @ qs \<and> bytes_of (pl # ps) = xs \<and> bytes_of qs = ys"
      using pl None by simp
    then show ?thesis by blast
  next
    case (Some b)
    show ?thesis
    proof (cases xs)
      case Nil
      with Cons.prems have "pl # polls = [] @ (pl # polls) \<and> bytes_of [] = xs
          \<and> bytes_of (pl # polls) = ys" by simp
      then show ?thesis by blast
    next
      case (Cons x xs')
      with Cons.prems pl Some have "bytes_of polls = xs' @ ys" and x: "x = b" by simp_all
      from Cons.IH [OF this(1)] obtain ps qs
        where "polls = ps @ qs" "bytes_of ps = xs'" "bytes_of qs = ys" by blast
      then have "pl # polls = (pl # ps) @ qs \<and> bytes_of (pl # ps) = xs \<and> bytes_of qs = ys"
        using pl Some Cons x by simp
      then show ?thesis by blast
    qed
  qed
qed

lemma scan_expired:
  "\<not> in_time s pl \<Longrightarrow> scan atof c s (pl # rest) p = Some (Inr TimedOut)"
  by (cases pl) (simp add: in_time_def)

lemma scan_byte:
  "in_time s (t, Some b) \<Longrightarrow> on_byte c b p = Inr p' \<Longrightarrow> on_done atof p' = Inr None \<Longrightarrow>
     scan atof c s ((t, Some b) # rest) p = scan atof c s rest p'"
  by (simp add: in_time_def)

lemma scan_byte_found:
  "in_time s (t, Some b) \<Longrightarrow> on_byte c b p = Inr p' \<Longrightarrow> on_done atof p' = Inr (Some v) \<Longrightarrow>
     scan atof c s ((t, Some b) # rest) p = Some (Inr (ReturnTrue v))"
  by (simp add: in_time_def)

lemma on_done_not_done: "state p \<noteq> DONE \<Longrightarrow> on_done atof p = Inr None"
  by (simp add: on_done_def)

lemma on_byte_waiting_other:
  "state p = WAIT_FOR_START \<Longrightarrow> b \<noteq> c \<Longrightarrow> on_byte c b p = Inr p"
  by (simp add: on_byte_def)

lemma on_byte_done: "state p = DONE \<Longrightarrow> on_byte c b p = Inr p"
  by (simp add: on_byte_def)

lemma parser_init_filled:
  "parser_init = \<lparr>state = WAIT_FOR_START, response = filled [], index = length ([] :: char list)\<rparr>"
  by (simp add: parser_init_def filled_def)

lemma on_byte_init_start: "on_byte c c parser_init = Inr (reading [c])"
proof -
  have "poke (filled []) (length ([] :: char list)) c = Inr (filled ([] @ [c]))"
    by (rule poke_filled_byte) (simp add: RESPONSE_SIZE_def)
  then show ?thesis
    by (simp add: on_byte_def parser_init_filled reading_def)
qed

lemma on_byte_reading_more:
  assumes "length pre < RESPONSE_SIZE - 1" and "b \<noteq> LF"
  shows "on_byte c b (reading pre) = Inr (reading (pre @ [b]))"
proof -
  have "length pre < RESPONSE_SIZE" using assms(1) by simp
  from poke_filled_byte [OF this] assms show ?thesis
    by (simp add: on_byte_def reading_def)
qed

lemma on_byte_reading_end:
  assumes "length pre < RESPONSE_SIZE" and "b = LF \<or> RESPONSE_SIZE - 1 \<le> length pre"
  shows "on_byte c b (reading pre) = Inr (finished pre)"
  using poke_filled_NUL [OF assms(1)] assms(2)
  by (auto simp: on_byte_def reading_def finished_def)

lemma scan_wait:
  "state p = WAIT_FOR_START \<Longrightarrow> \<forall>pl\<in>set polls. in_time s pl \<Longrightarrow> c \<notin> set (bytes_of polls) \<Longrightarrow>
     scan atof c s (polls @ rest) p = scan atof c s rest p"
proof (induction polls)
  case Nil
  then show ?case by simp
next
  case (Cons pl polls)
  obtain t a where pl: "pl = (t, a)" by (cases pl)
  show ?case
  proof (cases a)
    case None
    with Cons pl show ?thesis by (simp add: in_time_def)
  next
    case (Some b)
    with Cons.prems pl have "b \<noteq> c" and "in_time s (t, Some b)" by auto
    with Cons pl Some show ?thesis
      by (simp add: in_time_def on_byte_waiting_other on_done_not_done)
  qed
qed

lemma scan_payload:
  "\<forall>pl\<in>set polls. in_time s pl \<Longrightarrow> LF \<notin> set (bytes_of polls) \<Longrightarrow>
   length pre + length (bytes_of polls) < RESPONSE_SIZE \<Longrightarrow>
     scan atof c s (polls @ rest) (reading pre) = scan atof c s rest (reading (pre @ bytes_of polls))"
proof (induction polls arbitrary: pre)
  case Nil
  then show ?case by simp
next
  case (Cons pl polls)
  obtain t a where pl: "pl = (t, a)" by (cases pl)
  show ?case
  proof (cases a)
    case None
    with Cons pl show ?thesis by (simp add: in_time_def)
  next
    case (Some b)
    with Cons.prems pl have b: "b \<noteq> LF" and t: "in_time s (t, Some b)"
      and len: "length pre < RESPONSE_SIZE - 1"
      and len': "length (pre @ [b]) + length (bytes_of polls) < RESPONSE_SIZE"
      and rest: "\<forall>pl\<in>set polls. in_time s pl" "LF \<notin> set (bytes_of polls)"
      by auto
    have "scan atof c s ((t, Some b) # polls @ rest) (reading pre)
          = scan atof c s (polls @ rest) (reading (pre @ [b]))"
      by (rule scan_byte [OF t on_byte_reading_more [OF len b]])
         (simp add: on_done_not_done reading_def)
    also have "\<dots> = scan atof c s rest (reading ((pre @ [b]) @ bytes_of polls))"
      by (rule Cons.IH [OF rest len'])
    finally show ?thesis using pl Some by simp
  qed
qed

lemma scan_start:
  "\<forall>pl\<in>set polls. in_time s pl \<Longrightarrow> bytes_of polls = junk @ [c] \<Longrightarrow> c \<notin> set junk \<Longrightarrow>
     scan atof c s (polls @ rest) parser_init = scan atof c s rest (reading [c])"
proof (induction polls arbitrary: junk)
  case Nil
  then show ?case by simp
next
  case (Cons pl polls)
  obtain t a where pl: "pl = (t, a)" by (cases pl)
  show ?case
  proof (cases a)
    case None
    with Cons pl show ?thesis by (simp add: in_time_def)
  next
    case (Some b)
    with Cons.prems pl have t: "in_time s (t, Some b)"
      and rest: "\<forall>pl\<in>set polls. in_time s pl" by auto
    show ?thesis
    proof (cases junk)
      case Nil
      with Cons.prems pl Some have b: "b = c" and none: "bytes_of polls = []" by simp_all
      have "scan atof c s ((t, Some c) # polls @ rest) parser_init
            = scan atof c s (polls @ rest) (reading [c])"
        using t b by (intro scan_byte [OF _ on_byte_init_start])
          (simp_all add: on_done_not_done reading_def)
      also have "\<dots> = scan atof c s rest (reading ([c] @ bytes_of polls))"
        by (rule scan_payload [OF rest]) (simp_all add: none RESPONSE_SIZE_def)
      finally show ?thesis using pl Some b none by simp
    next
      case (Cons x junk')
      with Cons.prems pl Some have b: "b \<noteq> c" and bytes: "bytes_of polls = junk' @ [c]"
        and junk': "c \<notin> set junk'" by auto
      have "scan atof c s ((t, Some b) # polls @ rest) parser_init
            = scan atof c s (polls @ rest) parser_init"
        by (rule scan_byte [OF t on_byte_waiting_other [OF _ b]])
           (simp_all add: on_done_not_done parser_init_def)
      also have "\<dots> = scan atof c s rest (reading [c])"
        by (rule Cons.IH [OF rest bytes junk'])
      finally show ?thesis using pl Some by simp
    qed
  qed
qed

lemma scan_done_skip:
  "state p = DONE \<Longrightarrow> on_done atof p = Inr None \<Longrightarrow> \<forall>pl\<in>set polls. in_time s pl \<Longrightarrow>
     scan atof c s (polls @ rest) p = scan atof c s rest p"
proof (induction polls)
  case Nil
  then show ?case by simp
next
  case (Cons pl polls)
  obtain t a where pl: "pl = (t, a)" by (cases pl)
  show ?case
  proof (cases a)
    case None
    with Cons pl show ?thesis by (simp add: in_time_def)
  next
    case (Some b)
    with Cons pl show ?thesis
      by (simp add: in_time_def on_byte_done)
  qed
qed

lemma scan_done_expires:
  "state p = DONE \<Longrightarrow> on_done atof p = Inr None \<Longrightarrow> \<exists>pl\<in>set polls. \<not> in_time s pl \<Longrightarrow>
     scan atof c s polls p = Some (Inr TimedOut)"
proof (induction polls)
  case Nil
  then show ?case by simp
next
  case (Cons pl polls)
  show ?case
  proof (cases "in_time s pl")
    case False
    then show ?thesis by (rule scan_expired)
  next
    case True
    with Cons.prems have later: "\<exists>pl\<in>set polls. \<not> in_time s pl" by auto
    have "scan atof c s ([pl] @ polls) p = scan atof c s polls p"
      by (rule scan_done_skip [OF Cons.prems(1,2)]) (simp add: True)
    with Cons.IH [OF Cons.prems(1,2) later] show ?thesis by simp
  qed
qed

lemma scan_finish:
  "\<forall>pl\<in>set polls. in_time s pl \<Longrightarrow> bytes_of polls = [b] \<Longrightarrow> length pre < RESPONSE_SIZE \<Longrightarrow>
   b = LF \<or> RESPONSE_SIZE - 1 \<le> length pre \<Longrightarrow>
     scan atof c s (polls @ rest) (reading pre) =
       (if COLON \<in> set (c_string pre) then Some (Inr (ReturnTrue (atof (after_colon pre))))
        else scan atof c s rest (finished pre))"
proof (induction polls)
  case Nil
  then show ?case by simp
next
  case (Cons pl polls)
  obtain t a where pl: "pl = (t, a)" by (cases pl)
  show ?case
  proof (cases a)
    case None
    with Cons pl show ?thesis by (simp add: in_time_def)
  next
    case (Some b')
    with Cons.prems pl have t: "in_time s (t, Some b)" and b': "b' = b"
      and rest: "\<forall>pl\<in>set polls. in_time s pl" by auto
    note step = on_byte_reading_end [OF Cons.prems(3,4), of c]
    note fin = on_done_finished [OF Cons.prems(3), of atof]
    show ?thesis
    proof (cases "COLON \<in> set (c_string pre)")
      case True
      with fin have "on_done atof (finished pre) = Inr (Some (atof (after_colon pre)))" by simp
      from scan_byte_found [OF t step this] True pl Some b' show ?thesis by simp
    next
      case False
      with fin have none: "on_done atof (finished pre) = Inr None" by simp
      have "scan atof c s ((t, Some b) # polls @ rest) (reading pre)
            = scan atof c s (polls @ rest) (finished pre)"
        by (rule scan_byte [OF t step none])
      also have "\<dots> = scan atof c s rest (finished pre)"
        by (rule scan_done_skip [OF _ none rest]) (simp add: finished_def)
      finally show ?thesis using False pl Some b' by simp
    qed
  qed
qed

lemma scan_frame:
  assumes time: "\<forall>pl\<in>set polls. in_time s pl"
    and bytes: "bytes_of polls = junk @ c # body @ [b]"
    and junk: "c \<notin> set junk"
    and body: "LF \<notin> set body" "length body < RESPONSE_SIZE - 1"
    and b: "b = LF \<or> RESPONSE_SIZE - 1 \<le> length (c # body)"
  shows "scan atof c s (polls @ rest) parser_init =
       (if COLON \<in> set (c_string (c # body))
        then Some (Inr (ReturnTrue (atof (after_colon (c # body)))))
        else scan atof c s rest (finished (c # body)))"
proof -
  from bytes have "bytes_of polls = (junk @ [c]) @ (body @ [b])" by simp
  from bytes_of_split [OF this] obtain ps qs
    where polls: "polls = ps @ qs" and ps: "bytes_of ps = junk @ [c]"
      and qs: "bytes_of qs = body @ [b]" by blast
  from bytes_of_split [OF qs] obtain qb qf
    where qs': "qs = qb @ qf" and qb: "bytes_of qb = body" and qf: "bytes_of qf = [b]" by blast
  from time polls qs' have t1: "\<forall>pl\<in>set ps. in_time s pl" and t2: "\<forall>pl\<in>set qb. in_time s pl"
    and t3: "\<forall>pl\<in>set qf. in_time s pl" by auto
  have len: "length (c # body) < RESPONSE_SIZE" using body(2) by simp
  have "scan atof c s (polls @ rest) parser_init = scan atof c s (ps @ (qb @ qf @ rest)) parser_init"
    by (simp add: polls qs')
  also have "\<dots> = scan atof c s (qb @ (qf @ rest)) (reading [c])"
    by (rule scan_start [OF t1 ps junk])
  also have "\<dots> = scan atof c s (qf @ rest) (reading ([c] @ bytes_of qb))"
    by (rule scan_payload [OF t2]) (use body qb in simp_all)
  also have "\<dots> = scan atof c s (qf @ rest) (reading (c # body))"
    by (simp add: qb)
  also have "\<dots> = (if COLON \<in> set (c_string (c # body))
        then Some (Inr (ReturnTrue (atof (after_colon (c # body)))))
        else scan atof c s rest (finished (c # body)))"
    by (rule scan_finish [OF t3 qf len b])
  finally show ?thesis .
qed

subsection \<open>Concrete polls and the exits of the call\<close>

lemma bytes_of_deliver [simp]: "bytes_of (deliver t bs) = bs"
  by (induction bs) (simp_all add: deliver_def)

lemma in_time_deliver:
  "t - s < WEATHERBUSLITE_RESPONSE_TIMEOUT \<Longrightarrow> \<forall>pl\<in>set (deliver t bs). in_time s pl"
  by (auto simp: deliver_def in_time_def)

lemma in_time_same: "\<forall>pl\<in>set (deliver s bs). in_time s pl"
  by (rule in_time_deliver) (simp add: WEATHERBUSLITE_RESPONSE_TIMEOUT_def)

lemma parseResponse_ReturnTrue:
  "scan atof c s polls parser_init = Some (Inr (ReturnTrue x)) \<Longrightarrow>
     parseResponse atof c v s polls calls =
       Some (Inr \<lparr>ok = True, measurement = x, bus = calls @ [RS485_receive]\<rparr>)"
  by (simp add: parseResponse_def)

lemma parseResponse_TimedOut:
  "scan atof c s polls parser_init = Some (Inr TimedOut) \<Longrightarrow>
     parseResponse atof c v s polls calls =
       Some (Inr \<lparr>ok = False, measurement = v,
                  bus = calls @ [RS485_receive, RS485_noReceive]\<rparr>)"
  by (simp add: parseResponse_def)

lemma atof_decimal_19_75: "atof_decimal ''19.75'' = 79 / 4"
  by (simp add: atof_decimal_def take_sign_def take_fraction_def take_exponent_def
      isspace_def isdigit_def digits_value_def digit_value_def)

lemma scan_no_colon:
  assumes "\<forall>pl\<in>set polls. in_time s pl"
    and "bytes_of polls = junk @ c # body @ [b]"
    and "c \<notin> set junk"
    and "LF \<notin> set body"
    and "length body < RESPONSE_SIZE - 1"
    and "b = LF \<or> RESPONSE_SIZE - 1 \<le> length (c # body)"
    and "COLON \<notin> set (c_string (c # body))"
    and "\<exists>pl\<in>set rest. \<not> in_time s pl"
  shows "scan atof c s (polls @ rest) parser_init = Some (Inr TimedOut)"
proof -
  have len: "length (c # body) < RESPONSE_SIZE" using assms(5) by simp
  have "scan atof c s (polls @ rest) parser_init = scan atof c s rest (finished (c # body))"
    using scan_frame [OF assms(1-6), of atof rest] assms(7) by simp
  also have "\<dots> = Some (Inr TimedOut)"
  proof (rule scan_done_expires [OF _ _ assms(8)])
    show "state (finished (c # body)) = DONE" by (simp add: finished_def)
    show "on_done atof (finished (c # body)) = Inr None"
      using on_done_finished [OF len, of atof] assms(7) by simp
  qed
  finally show ?thesis .
qed

lemma scan_deliver_frame:
  assumes "c \<notin> set junk" and "LF \<notin> set body" and "length body \<le> 30"
    and "COLON \<in> set (c_string (c # body))"
  shows "scan atof c s (deliver s (junk @ c # body @ [LF]) @ rest) parser_init =
     Some (Inr (ReturnTrue (atof (after_colon (c # body)))))"
proof -
  have "length body < RESPONSE_SIZE - 1"
    using assms(3) by (simp add: RESPONSE_SIZE_def)
  from scan_frame [OF in_time_same _ assms(1,2) this, of s _ LF atof rest] assms(4)
  show ?thesis by simp
qed

lemma atof_decimal_19_75xyz: "atof_decimal ''19.75xyz'' = 79 / 4"
  by (simp add: atof_decimal_def take_sign_def take_fraction_def take_exponent_def
      isspace_def isdigit_def digits_value_def digit_value_def)

lemma atof_decimal_abc: "atof_decimal ''abc'' = 0"
  by (simp add: atof_decimal_def take_sign_def take_fraction_def take_exponent_def
      isspace_def isdigit_def digits_value_def digit_value_def)

lemma scan_T_19_75xyz:
  "scan atof (CHR ''T'') s (deliver s (''T:19.75xyz'' @ [LF]) @ rest) parser_init =
     Some (Inr (ReturnTrue (atof ''19.75xyz'')))"
  using scan_deliver_frame [of "CHR ''T''" "[]" "'':19.75xyz''" atof s rest]
  by (simp add: c_string_def after_colon_def)

lemma scan_T_abc:
  "scan atof (CHR ''T'') s (deliver s (''T:abc'' @ [LF]) @ rest) parser_init =
     Some (Inr (ReturnTrue (atof ''abc'')))"
  using scan_deliver_frame [of "CHR ''T''" "[]" "'':abc''" atof s rest]
  by (simp add: c_string_def after_colon_def)

lemma scan_T_1:
  "scan atof (CHR ''T'') s (deliver s (''T:1'' @ [LF]) @ rest) parser_init =
     Some (Inr (ReturnTrue (atof ''1'')))"
  using scan_deliver_frame [of "CHR ''T''" "[]" "'':1''" atof s rest]
  by (simp add: c_string_def after_colon_def)

lemma scan_full_expires:
  assumes "length pre = RESPONSE_SIZE - 1" and "COLON \<notin> set (c_string pre)"
  shows "\<exists>pl\<in>set rest. \<not> in_time s pl \<Longrightarrow>
     scan atof c s rest (reading pre) = Some (Inr TimedOut)"
proof (induction rest)
  case Nil
  then show ?case by simp
next
  case (Cons pl rest)
  obtain t a where pl: "pl = (t, a)" by (cases pl)
  have len: "length pre < RESPONSE_SIZE" using assms(1) by (simp add: RESPONSE_SIZE_def)
  have none: "on_done atof (finished pre) = Inr None"
    using on_done_finished [OF len, of atof] assms(2) by simp
  show ?case
  proof (cases "in_time s pl")
    case False
    then show ?thesis by (rule scan_expired)
  next
    case True
    with Cons.prems have later: "\<exists>pl\<in>set rest. \<not> in_time s pl" by auto
    show ?thesis
    proof (cases a)
      case None
      with True pl Cons.IH [OF later] show ?thesis by (simp add: in_time_def)
    next
      case (Some b)
      have "scan atof c s ((t, Some b) # rest) (reading pre) = scan atof c s rest (finished pre)"
        using True pl Some
        by (intro scan_byte on_byte_reading_end [OF len] none) (simp_all add: assms(1))
      also have "\<dots> = Some (Inr TimedOut)"
        by (rule scan_done_expires [OF _ none later]) (simp add: finished_def)
      finally show ?thesis using pl Some by simp
    qed
  qed
qed

subsection \<open>The invariant of the loop\<close>

lemma buffer_ok_init: "buffer_ok parser_init"
  by (simp add: buffer_ok_def parser_init_def RESPONSE_SIZE_def)

lemma on_byte_buffer_ok:
  assumes "buffer_ok p"
  shows "\<exists>p'. on_byte c b p = Inr p' \<and> buffer_ok p'
           \<and> (index p' = index p \<or> index p' = index p + 1 \<and> index p < RESPONSE_SIZE - 1)"
proof (cases "state p")
  case WAIT_FOR_START
  with assms show ?thesis
    by (auto simp: on_byte_def poke_def buffer_ok_def RESPONSE_SIZE_def)
next
  case READ_PAYLOAD
  with assms show ?thesis
    by (auto simp: on_byte_def poke_def buffer_ok_def RESPONSE_SIZE_def nth_list_update)
next
  case DONE
  with assms show ?thesis
    by (simp add: on_byte_def)
qed

lemma reachable_buffer_ok: "reachable c p \<Longrightarrow> buffer_ok p"
proof (induction rule: reachable.induct)
  case initial
  show ?case by (rule buffer_ok_init)
next
  case (byte p incoming p')
  with on_byte_buffer_ok [OF byte.IH, of c incoming] show ?case by auto
qed

lemma strchr_total: "NUL \<in> set xs \<Longrightarrow> \<exists>r. strchr xs ch = Inr r"
  by (induction xs) auto

lemma strchr_Some: "strchr xs ch = Inr (Some k) \<Longrightarrow> k < length xs \<and> xs ! k = ch"
proof (induction xs arbitrary: k)
  case Nil
  then show ?case by simp
next
  case (Cons x xs)
  show ?case
  proof (cases "x = ch")
    case True
    with Cons.prems show ?thesis by simp
  next
    case False
    with Cons.prems obtain j where "strchr xs ch = Inr (Some j)" and "k = Suc j"
      by (cases "strchr xs ch") (auto split: if_splits)
    with Cons.IH [of j] show ?thesis by simp
  qed
qed

lemma c_str_total: "NUL \<in> set xs \<Longrightarrow> \<exists>s. c_str xs = Inr s"
  by (induction xs) auto

lemma on_done_total:
  assumes "buffer_ok p"
  shows "\<exists>r. on_done atof p = Inr r"
proof (cases "state p = DONE")
  case False
  then show ?thesis by (simp add: on_done_def)
next
  case True
  from assms have len: "length (response p) = 32" and last: "response p ! 31 = NUL"
    by (simp_all add: buffer_ok_def RESPONSE_SIZE_def)
  have "response p ! 31 \<in> set (response p)"
    by (rule nth_mem) (simp add: len)
  with last have "NUL \<in> set (response p)" by simp
  from strchr_total [OF this] obtain r where r: "strchr (response p) COLON = Inr r" by blast
  show ?thesis
  proof (cases r)
    case None
    with r True show ?thesis by (simp add: on_done_def)
  next
    case (Some k)
    with r have "strchr (response p) COLON = Inr (Some k)" by simp
    from strchr_Some [OF this] len have k: "k < 32" "response p ! k = COLON" by simp_all
    from k(2) last have "k \<noteq> 31" by auto
    with k(1) have k31: "k < 31" by simp
    have inside: "31 - (k + 1) < length (drop (k + 1) (response p))"
      using len k31 by simp
    have "drop (k + 1) (response p) ! (31 - (k + 1)) = response p ! 31"
      using len k31 by simp
    with last nth_mem [OF inside] have "NUL \<in> set (drop (k + 1) (response p))"
      by simp
    from c_str_total [OF this] obtain s where "c_str (drop (k + 1) (response p)) = Inr s"
      by blast
    with r Some True show ?thesis by (simp add: on_done_def)
  qed
qed

lemma scan_no_fault: "buffer_ok p \<Longrightarrow> scan atof c s polls p \<noteq> Some (Inl e)"
proof (induction polls arbitrary: p)
  case Nil
  then show ?case by simp
next
  case (Cons pl polls)
  obtain t a where pl: "pl = (t, a)" by (cases pl)
  show ?case
  proof (cases a)
    case None
    with Cons pl show ?thesis by simp
  next
    case (Some b)
    from on_byte_buffer_ok [OF Cons.prems, of c b] obtain p'
      where p': "on_byte c b p = Inr p'" "buffer_ok p'" by blast
    from on_done_total [OF p'(2), of atof] obtain r where r: "on_done atof p' = Inr r" by blast
    from Cons.IH [OF p'(2)] p' r pl Some show ?thesis
      by (cases r) simp_all
  qed
qed

subsection \<open>Queries\<close>

lemma scan_timeout:
  assumes "\<forall>pl\<in>set polls. in_time startMillis pl"
    and "\<not> in_time startMillis late"
    and "X \<notin> set (bytes_of polls) \<or>
         (\<exists>junk body. bytes_of polls = junk @ X # body \<and> X \<notin> set junk
            \<and> LF \<notin> set body \<and> length body \<le> 30)"
  shows "scan atof X startMillis (polls @ late # rest) parser_init = Some (Inr TimedOut)"
  using assms(3)
proof
  assume "X \<notin> set (bytes_of polls)"
  then have "scan atof X startMillis (polls @ late # rest) parser_init
      = scan atof X startMillis (late # rest) parser_init"
    by (intro scan_wait assms(1)) (simp add: parser_init_def)
  then show ?thesis by (simp add: scan_expired [OF assms(2)])
next
  assume "\<exists>junk body. bytes_of polls = junk @ X # body \<and> X \<notin> set junk
          \<and> LF \<notin> set body \<and> length body \<le> 30"
  then obtain junk body where bytes: "bytes_of polls = (junk @ [X]) @ body"
    and junk: "X \<notin> set junk" and body: "LF \<notin> set body" "length body \<le> 30"
    by auto
  from bytes_of_split [OF bytes] obtain ps qs
    where polls: "polls = ps @ qs" and ps: "bytes_of ps = junk @ [X]"
      and qs: "bytes_of qs = body" by blast
  from assms(1) polls have t1: "\<forall>pl\<in>set ps. in_time startMillis pl"
    and t2: "\<forall>pl\<in>set qs. in_time startMillis pl" by auto
  have "scan atof X startMillis (polls @ late # rest) parser_init
      = scan atof X startMillis (ps @ (qs @ late # rest)) parser_init"
    by (simp add: polls)
  also have "\<dots> = scan atof X startMillis (qs @ late # rest) (reading [X])"
    by (rule scan_start [OF t1 ps junk])
  also have "\<dots> = scan atof X startMillis (late # rest) (reading ([X] @ bytes_of qs))"
    by (rule scan_payload [OF t2]) (use body qs in \<open>simp_all add: RESPONSE_SIZE_def\<close>)
  also have "\<dots> = Some (Inr TimedOut)"
    by (rule scan_expired [OF assms(2)])
  finally show ?thesis .
qed


lemma parseResponse_failed_value:
  "parseResponse atof c v s polls calls = Some (Inr r) \<Longrightarrow> \<not> ok r \<Longrightarrow> measurement r = v"
  by (auto simp: parseResponse_def split: option.splits sum.splits loop_exit.splits)

lemma sendQuery_code:
  "c \<noteq> NUL \<Longrightarrow> sendQuery [CHR ''?'', c, NUL] calls =
     calls @ [RS485_beginTransmission, RS485_print [CHR ''?'', c], RS485_println,
              RS485_endTransmission, RS485_flush, Delay 2]"
  by (simp add: sendQuery_def WEATHERBUSLITE_GRACE_def)

lemmas fixed_query_defs =
  queryTemp_def queryHumidity_def queryPressure_def queryAirQuality_def queryUV_def
  queryRainfall_def queryWindSpeed_def queryWindDirection_def queryCanopyTemperature_def

lemma fixed_queries_custom:
  "queryTemp atof = queryCustom atof (CHR ''T'')"
  "queryHumidity atof = queryCustom atof (CHR ''H'')"
  "queryPressure atof = queryCustom atof (CHR ''P'')"
  "queryAirQuality atof = queryCustom atof (CHR ''A'')"
  "queryUV atof = queryCustom atof (CHR ''U'')"
  "queryRainfall atof = queryCustom atof (CHR ''R'')"
  "queryWindSpeed atof = queryCustom atof (CHR ''W'')"
  "queryWindDirection atof = queryCustom atof (CHR ''D'')"
  "queryCanopyTemperature atof = queryCustom atof (CHR ''C'')"
  by (intro ext, simp add: fixed_query_defs queryCustom_def)+


lemma scan_Z_5_2:
  "scan atof (CHR ''Z'') s (deliver s (''Z:5.2'' @ [LF]) @ rest) parser_init =
     Some (Inr (ReturnTrue (atof ''5.2'')))"
  using scan_deliver_frame [of "CHR ''Z''" "[]" "'':5.2''" atof s rest]
  by (simp add: c_string_def after_colon_def)

lemma atof_decimal_5_2: "atof_decimal ''5.2'' = 26 / 5"
  by (simp add: atof_decimal_def take_sign_def take_fraction_def take_exponent_def
      isspace_def isdigit_def digits_value_def digit_value_def)

subsection \<open>The decimal model\<close>

lemma takeWhile_stop: "\<not> P y \<Longrightarrow> takeWhile P (xs @ y # ys) = takeWhile P xs"
  by (induction xs) simp_all

lemma dropWhile_stop: "\<not> P y \<Longrightarrow> dropWhile P (xs @ y # ys) = dropWhile P xs @ y # ys"
  by (induction xs) simp_all

lemma dropWhile_isspace_stop:
  assumes "\<not> isspace ch \<or> (\<exists>x\<in>set s. \<not> isspace x)"
  shows "dropWhile isspace (s @ ch # trail) = dropWhile isspace s @ ch # trail"
proof (cases "\<forall>x\<in>set s. isspace x")
  case True
  with assms have "\<not> isspace ch" by blast
  then show ?thesis by (rule dropWhile_stop)
next
  case False
  then show ?thesis by (auto simp: dropWhile_append)
qed

lemma take_sign_stop:
  "ch \<noteq> CHR ''-'' \<Longrightarrow> ch \<noteq> CHR ''+'' \<Longrightarrow>
     take_sign (t @ ch # trail) = (fst (take_sign t), snd (take_sign t) @ ch # trail)"
  by (cases t) (simp_all add: take_sign_def)

lemma take_fraction_stop:
  "ch \<noteq> CHR ''.'' \<Longrightarrow> \<not> isdigit ch \<Longrightarrow>
     take_fraction (t @ ch # trail) = (fst (take_fraction t), snd (take_fraction t) @ ch # trail)"
  by (cases t) (simp_all add: take_fraction_def takeWhile_stop dropWhile_stop)

lemma take_exponent_stop:
  "ch \<noteq> CHR ''e'' \<Longrightarrow> ch \<noteq> CHR ''E'' \<Longrightarrow> ch \<noteq> CHR ''-'' \<Longrightarrow> ch \<noteq> CHR ''+'' \<Longrightarrow>
   \<not> isdigit ch \<Longrightarrow> take_exponent (t @ ch # trail) = take_exponent t"
  by (cases t) (simp_all add: take_exponent_def take_sign_stop takeWhile_stop split_beta Let_def)

lemma atof_decimal_stop:
  assumes "\<not> numeric_char ch" and "\<not> isspace ch \<or> (\<exists>x\<in>set s. \<not> isspace x)"
  shows "atof_decimal (s @ ch # trail) = atof_decimal s"
proof -
  from assms(1) have ch: "\<not> isdigit ch" "ch \<noteq> CHR ''.''" "ch \<noteq> CHR ''+''" "ch \<noteq> CHR ''-''"
    "ch \<noteq> CHR ''e''" "ch \<noteq> CHR ''E''"
    by (auto simp: numeric_char_def)
  show ?thesis
    by (simp add: atof_decimal_def split_beta Let_def dropWhile_isspace_stop [OF assms(2)]
        take_sign_stop takeWhile_stop dropWhile_stop take_fraction_stop take_exponent_stop ch)
qed

lemma takeWhile_none: "\<forall>x\<in>set xs. \<not> P x \<Longrightarrow> takeWhile P xs = []"
  by (cases xs) simp_all

lemma take_sign_subset: "set (snd (take_sign t)) \<subseteq> set t"
  by (cases t) (auto simp: take_sign_def)

lemma take_fraction_no_digit: "\<forall>x\<in>set t. \<not> isdigit x \<Longrightarrow> fst (take_fraction t) = []"
  by (cases t) (simp_all add: take_fraction_def takeWhile_none)

lemma atof_decimal_no_digit:
  assumes "\<forall>x\<in>set s. \<not> isdigit x"
  shows "atof_decimal s = 0"
proof -
  let ?s1 = "snd (take_sign (dropWhile isspace s))"
  have "set ?s1 \<subseteq> set s"
    using take_sign_subset [of "dropWhile isspace s"] set_dropWhileD [of _ isspace s] by blast
  with assms have s1: "\<forall>x\<in>set ?s1. \<not> isdigit x" by blast
  then have ip: "takeWhile isdigit ?s1 = []" by (rule takeWhile_none)
  from s1 have "\<forall>x\<in>set (dropWhile isdigit ?s1). \<not> isdigit x"
    by (blast dest: set_dropWhileD)
  then have fp: "fst (take_fraction (dropWhile isdigit ?s1)) = []"
    by (rule take_fraction_no_digit)
  show ?thesis
    by (simp add: atof_decimal_def split_beta Let_def ip fp)
qed

section \<open>The claims\<close>

subsection \<open>Frame extraction\<close>

text \<open>
  Claim C1, as amended. For every requested code \<open>c\<close>: when the polls inside the time
  budget deliver bytes none of which is \<open>c\<close>, then \<open>c\<close>, then at most 30 payload
  bytes without a line-feed, then a line-feed, and a colon stands in the buffered frame
  (the code and the payload) before any NUL byte, then \<open>parseResponse\<close> returns true,
  whatever polls follow, and the output parameter holds \<open>atof\<close> of the text after the
  first colon of the buffered frame. The claim as written has no bound on the payload:
  with 30 payload bytes before the colon the buffer is full before the colon arrives,
  the frame is completed without it, and the call fails.
\<close>

theorem parseResponse_frame:
  assumes "\<forall>pl\<in>set polls. in_time startMillis pl"
    and "bytes_of polls = junk @ c # body @ [LF]"
    and "c \<notin> set junk"
    and "LF \<notin> set body"
    and "length body \<le> 30"
    and "COLON \<in> set (c_string (c # body))"
  shows "parseResponse atof c v startMillis (polls @ rest) calls =
     Some (Inr \<lparr>ok = True, measurement = atof (after_colon (c # body)),
                bus = calls @ [RS485_receive]\<rparr>)"
proof -
  have "length body < RESPONSE_SIZE - 1"
    using assms(5) by (simp add: RESPONSE_SIZE_def)
  from scan_frame [OF assms(1-4) this, of atof rest] assms(6)
  have "scan atof c startMillis (polls @ rest) parser_init =
      Some (Inr (ReturnTrue (atof (after_colon (c # body)))))"
    by simp
  then show ?thesis by (rule parseResponse_ReturnTrue)
qed

text \<open>
  The spec's example: the stream \<open>abT23.5extra:19.75\<close> and a line-feed, requested
  with code \<open>T\<close>, gives 19.75 (with the decimal model of \<open>atof\<close>).
\<close>

theorem parseResponse_frame_witness:
  "parseResponse atof_decimal (CHR ''T'') 0 0
     (deliver 0 (''abT23.5extra:19.75'' @ [LF])) [] =
   Some (Inr \<lparr>ok = True, measurement = 79 / 4, bus = [RS485_receive]\<rparr>)"
proof -
  have colon: "COLON \<in> set (c_string ''T23.5extra:19.75'')"
    by (simp add: c_string_def)
  have tail: "after_colon ''T23.5extra:19.75'' = ''19.75''"
    by (simp add: after_colon_def)
  have "parseResponse atof_decimal (CHR ''T'') 0 0
          (deliver 0 (''abT23.5extra:19.75'' @ [LF]) @ []) [] =
        Some (Inr \<lparr>ok = True, measurement = atof_decimal (after_colon ''T23.5extra:19.75''),
                   bus = [] @ [RS485_receive]\<rparr>)"
    by (rule parseResponse_frame [where junk = "''ab''"])
       (simp_all add: in_time_same colon)
  then show ?thesis by (simp add: tail atof_decimal_19_75)
qed

text \<open>
  Claim C1 as written fails here: \<open>T\<close>, 30 payload bytes, a colon, a numeric literal
  and a line-feed all arrive in time, and the call returns false.
\<close>

theorem parseResponse_long_payload_counterexample:
  "parseResponse atof_decimal (CHR ''T'') 0 0
     (deliver 0 (''T'' @ replicate 30 (CHR ''x'') @ '':1'' @ [LF]) @ [(1000, None)]) [] =
   Some (Inr \<lparr>ok = False, measurement = 0, bus = [RS485_receive, RS485_noReceive]\<rparr>)"
proof -
  let ?polls = "deliver 0 (''T'' @ replicate 30 (CHR ''x'') @ '':'')"
  let ?rest = "deliver 0 (''1'' @ [LF]) @ [(1000, None)]"
  have split: "deliver 0 (''T'' @ replicate 30 (CHR ''x'') @ '':1'' @ [LF]) @ [(1000, None)]
      = ?polls @ ?rest"
    by (simp add: deliver_def)
  have late: "\<exists>pl\<in>set ?rest. \<not> in_time 0 pl"
    by (simp add: in_time_def WEATHERBUSLITE_RESPONSE_TIMEOUT_def)
  have "scan atof_decimal (CHR ''T'') 0 (?polls @ ?rest) parser_init = Some (Inr TimedOut)"
    by (rule scan_no_colon [where junk = "[]" and body = "replicate 30 (CHR ''x'')" and b = COLON,
          OF in_time_same _ _ _ _ _ _ late])
       (simp_all add: RESPONSE_SIZE_def c_string_def)
  then show ?thesis
    unfolding split by (simp add: parseResponse_TimedOut)
qed

subsection \<open>Numeric tolerance\<close>

text \<open>
  Claim C2. For every frame that is complete within the budget and has a colon before
  any NUL, wherever the colon stands, the text after the first colon goes to \<open>atof\<close>
  as it is, trailing characters included, and the call reports success whatever
  \<open>atof\<close> makes of it. The decimal model of \<open>atof\<close> stops at the first character that
  is not numeric: a text followed by such a character, and by anything after it, has
  the value of the text alone (a white-space character stops it too once something
  other than white space came before). It gives 0 when the text has no digit. So the
  frame \<open>T:19.75xyz\<close> succeeds with \<open>atof\<close> of \<open>19.75xyz\<close>, which the model reads as
  19.75, and \<open>T:abc\<close> succeeds with \<open>atof\<close> of \<open>abc\<close>, which it reads as 0.
\<close>

theorem parseResponse_numeric_tolerance:
  "((\<forall>pl\<in>set polls. in_time startMillis pl) \<and> bytes_of polls = junk @ c # body @ [LF]
      \<and> c \<notin> set junk \<and> LF \<notin> set body \<and> length body \<le> 30
      \<and> COLON \<in> set (c_string (c # body)) \<longrightarrow>
      parseResponse atof c v startMillis (polls @ rest) calls =
        Some (Inr \<lparr>ok = True, measurement = atof (after_colon (c # body)),
                   bus = calls @ [RS485_receive]\<rparr>))
   \<and> (\<not> numeric_char ch \<and> (\<not> isspace ch \<or> (\<exists>x\<in>set num. \<not> isspace x)) \<longrightarrow>
        atof_decimal (num @ ch # trail) = atof_decimal num)
   \<and> ((\<forall>x\<in>set num. \<not> isdigit x) \<longrightarrow> atof_decimal num = 0)
   \<and> parseResponse atof (CHR ''T'') v startMillis
        (deliver startMillis (''T:19.75xyz'' @ [LF]) @ rest) calls =
     Some (Inr \<lparr>ok = True, measurement = atof ''19.75xyz'', bus = calls @ [RS485_receive]\<rparr>)
   \<and> parseResponse atof (CHR ''T'') v startMillis
        (deliver startMillis (''T:abc'' @ [LF]) @ rest) calls =
     Some (Inr \<lparr>ok = True, measurement = atof ''abc'', bus = calls @ [RS485_receive]\<rparr>)
   \<and> parseResponse atof_decimal (CHR ''T'') w startMillis
        (deliver startMillis (''T:19.75xyz'' @ [LF]) @ rest) calls =
     Some (Inr \<lparr>ok = True, measurement = 79 / 4, bus = calls @ [RS485_receive]\<rparr>)
   \<and> parseResponse atof_decimal (CHR ''T'') w startMillis
        (deliver startMillis (''T:abc'' @ [LF]) @ rest) calls =
     Some (Inr \<lparr>ok = True, measurement = 0, bus = calls @ [RS485_receive]\<rparr>)"
proof (intro conjI impI)
  assume frame: "(\<forall>pl\<in>set polls. in_time startMillis pl) \<and> bytes_of polls = junk @ c # body @ [LF]
      \<and> c \<notin> set junk \<and> LF \<notin> set body \<and> length body \<le> 30
      \<and> COLON \<in> set (c_string (c # body))"
  then have "length body < RESPONSE_SIZE - 1"
    by (simp add: RESPONSE_SIZE_def)
  with frame scan_frame [of polls startMillis junk c body LF atof rest]
  have "scan atof c startMillis (polls @ rest) parser_init =
      Some (Inr (ReturnTrue (atof (after_colon (c # body)))))"
    by simp
  then show "parseResponse atof c v startMillis (polls @ rest) calls =
        Some (Inr \<lparr>ok = True, measurement = atof (after_colon (c # body)),
                   bus = calls @ [RS485_receive]\<rparr>)"
    by (rule parseResponse_ReturnTrue)
next
  assume "\<not> numeric_char ch \<and> (\<not> isspace ch \<or> (\<exists>x\<in>set num. \<not> isspace x))"
  then show "atof_decimal (num @ ch # trail) = atof_decimal num"
    by (intro atof_decimal_stop) simp_all
next
  assume "\<forall>x\<in>set num. \<not> isdigit x"
  then show "atof_decimal num = 0" by (rule atof_decimal_no_digit)
next
  show "parseResponse atof (CHR ''T'') v startMillis
        (deliver startMillis (''T:19.75xyz'' @ [LF]) @ rest) calls =
     Some (Inr \<lparr>ok = True, measurement = atof ''19.75xyz'', bus = calls @ [RS485_receive]\<rparr>)"
    by (rule parseResponse_ReturnTrue [OF scan_T_19_75xyz])
  show "parseResponse atof (CHR ''T'') v startMillis
        (deliver startMillis (''T:abc'' @ [LF]) @ rest) calls =
     Some (Inr \<lparr>ok = True, measurement = atof ''abc'', bus = calls @ [RS485_receive]\<rparr>)"
    by (rule parseResponse_ReturnTrue [OF scan_T_abc])
  show "parseResponse atof_decimal (CHR ''T'') w startMillis
        (deliver startMillis (''T:19.75xyz'' @ [LF]) @ rest) calls =
     Some (Inr \<lparr>ok = True, measurement = 79 / 4, bus = calls @ [RS485_receive]\<rparr>)"
    by (rule parseResponse_ReturnTrue)
       (simp only: scan_T_19_75xyz [where atof = atof_decimal] atof_decimal_19_75xyz)
  show "parseResponse atof_decimal (CHR ''T'') w startMillis
        (deliver startMillis (''T:abc'' @ [LF]) @ rest) calls =
     Some (Inr \<lparr>ok = True, measurement = 0, bus = calls @ [RS485_receive]\<rparr>)"
    by (rule parseResponse_ReturnTrue)
       (simp only: scan_T_abc [where atof = atof_decimal] atof_decimal_abc)
qed

text \<open>
  With code \<open>H\<close>: the stream \<open>xxH rel: 42.5%\<close> has its colon at offset 5 of the
  frame and gives 42.5, the percent sign ending the literal; \<open>H=:n/a\<close> has no digit
  after the colon and succeeds with 0.
\<close>

theorem parseResponse_numeric_tolerance_witness:
  "parseResponse atof_decimal (CHR ''H'') 7 0 (deliver 0 (''xxH rel: 42.5%'' @ [LF])) [] =
     Some (Inr \<lparr>ok = True, measurement = 85 / 2, bus = [RS485_receive]\<rparr>)
   \<and> parseResponse atof_decimal (CHR ''H'') 7 0 (deliver 0 (''H=:n/a'' @ [LF])) [] =
     Some (Inr \<lparr>ok = True, measurement = 0, bus = [RS485_receive]\<rparr>)"
proof -
  note frame = parseResponse_numeric_tolerance [THEN conjunct1, rule_format]
  note stop = parseResponse_numeric_tolerance [THEN conjunct2, THEN conjunct1, rule_format]
  note zero = parseResponse_numeric_tolerance [THEN conjunct2, THEN conjunct2, THEN conjunct1,
      rule_format]
  have "parseResponse atof_decimal (CHR ''H'') 7 0
          (deliver 0 (''xxH rel: 42.5%'' @ [LF]) @ []) [] =
        Some (Inr \<lparr>ok = True, measurement = atof_decimal (after_colon ''H rel: 42.5%''),
                   bus = [] @ [RS485_receive]\<rparr>)"
    by (rule frame [where junk = "''xx''"]) (simp add: in_time_same c_string_def)
  moreover have "after_colon ''H rel: 42.5%'' = '' 42.5'' @ CHR ''%'' # []"
    by (simp add: after_colon_def)
  moreover have "atof_decimal ('' 42.5'' @ CHR ''%'' # []) = atof_decimal '' 42.5''"
    by (rule stop) (simp add: numeric_char_def isdigit_def isspace_def)
  moreover have "atof_decimal '' 42.5'' = 85 / 2"
    by (simp add: atof_decimal_def take_sign_def take_fraction_def take_exponent_def
        isspace_def isdigit_def digits_value_def digit_value_def)
  ultimately have first: "parseResponse atof_decimal (CHR ''H'') 7 0
      (deliver 0 (''xxH rel: 42.5%'' @ [LF])) [] =
     Some (Inr \<lparr>ok = True, measurement = 85 / 2, bus = [RS485_receive]\<rparr>)"
    by simp
  have "parseResponse atof_decimal (CHR ''H'') 7 0
          (deliver 0 (''H=:n/a'' @ [LF]) @ []) [] =
        Some (Inr \<lparr>ok = True, measurement = atof_decimal (after_colon ''H=:n/a''),
                   bus = [] @ [RS485_receive]\<rparr>)"
    by (rule frame [where junk = "[]"]) (simp add: in_time_same c_string_def)
  moreover have "after_colon ''H=:n/a'' = ''n/a''"
    by (simp add: after_colon_def)
  moreover have "atof_decimal ''n/a'' = 0"
    by (rule zero) (auto simp: isdigit_def)
  ultimately have second: "parseResponse atof_decimal (CHR ''H'') 7 0
      (deliver 0 (''H=:n/a'' @ [LF])) [] =
     Some (Inr \<lparr>ok = True, measurement = 0, bus = [RS485_receive]\<rparr>)"
    by simp
  from first second show ?thesis by (rule conjI)
qed

subsection \<open>Missing colon\<close>

text \<open>
  Claim C3. For every requested code \<open>c\<close>: when the polls inside the time budget
  deliver a frame that starts with \<open>c\<close> and is either ended by a line-feed after at
  most 30 payload bytes, or has 30 payload bytes, so that the buffer holds its 31 bytes
  and whatever byte comes next completes the frame, and the buffered frame has no
  colon, then \<open>parseResponse\<close> returns false once a poll reads the clock past the
  budget, whatever else arrives before. Both ways of completing the frame end in the
  same failure: there is no separate overflow error.
\<close>

theorem parseResponse_missing_colon:
  assumes "\<forall>pl\<in>set polls. in_time startMillis pl"
    and "bytes_of polls = junk @ c # body @ tail"
    and "c \<notin> set junk"
    and "LF \<notin> set body"
    and "length body \<le> 30 \<and> (\<exists>more. tail = LF # more) \<or> length body = 30"
    and "COLON \<notin> set (c # body)"
    and "\<exists>pl\<in>set rest. \<not> in_time startMillis pl"
  shows "parseResponse atof c v startMillis (polls @ rest) calls =
     Some (Inr \<lparr>ok = False, measurement = v,
                bus = calls @ [RS485_receive, RS485_noReceive]\<rparr>)"
proof -
  have nocolon: "COLON \<notin> set (c_string (c # body))"
    using assms(6) unfolding c_string_def by (blast dest: set_takeWhileD)
  from assms(2) have "bytes_of polls = (junk @ [c]) @ (body @ tail)" by simp
  from bytes_of_split [OF this] obtain ps qs
    where polls: "polls = ps @ qs" and ps: "bytes_of ps = junk @ [c]"
      and qs: "bytes_of qs = body @ tail" by blast
  from bytes_of_split [OF qs] obtain qb qt
    where qs': "qs = qb @ qt" and qb: "bytes_of qb = body" and qt: "bytes_of qt = tail" by blast
  from assms(1) polls qs' have t1: "\<forall>pl\<in>set ps. in_time startMillis pl"
    and t2: "\<forall>pl\<in>set qb. in_time startMillis pl"
    and t3: "\<forall>pl\<in>set qt. in_time startMillis pl" by auto
  from assms(5) have len: "length body \<le> 30" by auto
  from assms(7) have late: "\<exists>pl\<in>set (qt @ rest). \<not> in_time startMillis pl" by auto
  have "scan atof c startMillis (polls @ rest) parser_init
      = scan atof c startMillis (ps @ (qb @ qt @ rest)) parser_init"
    by (simp add: polls qs')
  also have "\<dots> = scan atof c startMillis (qb @ (qt @ rest)) (reading [c])"
    by (rule scan_start [OF t1 ps assms(3)])
  also have "\<dots> = scan atof c startMillis (qt @ rest) (reading ([c] @ bytes_of qb))"
    by (rule scan_payload [OF t2]) (use assms(4) qb len in \<open>simp_all add: RESPONSE_SIZE_def\<close>)
  also have "\<dots> = scan atof c startMillis (qt @ rest) (reading (c # body))"
    by (simp add: qb)
  also have "\<dots> = Some (Inr TimedOut)"
  proof (cases "length body = 30")
    case True
    then have "length (c # body) = RESPONSE_SIZE - 1" by (simp add: RESPONSE_SIZE_def)
    from scan_full_expires [OF this nocolon late] show ?thesis .
  next
    case False
    with assms(5) obtain more where tail: "tail = [LF] @ more" by auto
    from bytes_of_split [OF qt [unfolded tail]] obtain qf qm
      where qt': "qt = qf @ qm" and qf: "bytes_of qf = [LF]" by blast
    from t3 qt' have t4: "\<forall>pl\<in>set qf. in_time startMillis pl" by auto
    from late qt' t4 have late': "\<exists>pl\<in>set (qm @ rest). \<not> in_time startMillis pl" by auto
    have len': "length (c # body) < RESPONSE_SIZE" using len by (simp add: RESPONSE_SIZE_def)
    have none: "on_done atof (finished (c # body)) = Inr None"
      using on_done_finished [OF len', of atof] nocolon by simp
    have "scan atof c startMillis (qf @ (qm @ rest)) (reading (c # body))
        = scan atof c startMillis (qm @ rest) (finished (c # body))"
      using scan_finish [OF t4 qf len', of atof c "qm @ rest"] nocolon by simp
    also have "\<dots> = Some (Inr TimedOut)"
      by (rule scan_done_expires [OF _ none late']) (simp add: finished_def)
    finally show ?thesis by (simp add: qt')
  qed
  finally show ?thesis by (rule parseResponse_TimedOut)
qed

text \<open>
  The spec's example, \<open>T\<close> and 31 payload bytes with no colon, where the 31st byte
  completes the frame by overflow; the claim's stream of \<open>T\<close> and 30 payload bytes;
  and a frame ended by a line-feed.
\<close>

theorem parseResponse_missing_colon_witness:
  "parseResponse atof_decimal (CHR ''T'') 42 0
     (deliver 0 ''T1234567890123456789012345678901'' @ [(1000, None)]) [] =
   Some (Inr \<lparr>ok = False, measurement = 42, bus = [RS485_receive, RS485_noReceive]\<rparr>)
   \<and> parseResponse atof_decimal (CHR ''T'') 42 0
     (deliver 0 ''T123456789012345678901234567890'' @ [(1000, None)]) [] =
   Some (Inr \<lparr>ok = False, measurement = 42, bus = [RS485_receive, RS485_noReceive]\<rparr>)
   \<and> parseResponse atof_decimal (CHR ''T'') 42 0
     (deliver 0 (''T23.5'' @ [LF]) @ [(1000, None)]) [] =
   Some (Inr \<lparr>ok = False, measurement = 42, bus = [RS485_receive, RS485_noReceive]\<rparr>)"
proof -
  have late: "\<exists>pl\<in>set [(1000, None)]. \<not> in_time 0 pl"
    by (simp add: in_time_def WEATHERBUSLITE_RESPONSE_TIMEOUT_def)
  have "parseResponse atof_decimal (CHR ''T'') 42 0
     (deliver 0 (''T123456789012345678901234567890'' @ ''1'') @ [(1000, None)]) [] =
   Some (Inr \<lparr>ok = False, measurement = 42, bus = [] @ [RS485_receive, RS485_noReceive]\<rparr>)"
    by (rule parseResponse_missing_colon [where junk = "[]"
          and body = "''123456789012345678901234567890''" and tail = "''1''",
          OF in_time_same _ _ _ _ _ late]) simp_all
  moreover have "parseResponse atof_decimal (CHR ''T'') 42 0
     (deliver 0 (''T123456789012345678901234567890'' @ []) @ [(1000, None)]) [] =
   Some (Inr \<lparr>ok = False, measurement = 42, bus = [] @ [RS485_receive, RS485_noReceive]\<rparr>)"
    by (rule parseResponse_missing_colon [where junk = "[]"
          and body = "''123456789012345678901234567890''" and tail = "[]",
          OF in_time_same _ _ _ _ _ late]) simp_all
  moreover have "parseResponse atof_decimal (CHR ''T'') 42 0
     (deliver 0 (''T23.5'' @ [LF]) @ [(1000, None)]) [] =
   Some (Inr \<lparr>ok = False, measurement = 42, bus = [] @ [RS485_receive, RS485_noReceive]\<rparr>)"
    by (rule parseResponse_missing_colon [where junk = "[]"
          and body = "''23.5''" and tail = "[LF]",
          OF in_time_same _ _ _ _ _ late]) simp_all
  ultimately show ?thesis by simp
qed

subsection \<open>Timeout\<close>

text \<open>
  Claim C4. For every requested code \<open>X\<close>: when the polls inside the budget of 1000
  milliseconds deliver no byte \<open>X\<close>, or deliver \<open>X\<close> and then only a partial frame (at
  most 30 payload bytes and no line-feed, with or without a colon), the first poll that
  reads the clock past the budget ends the loop, whether or not a byte is available
  then, and \<open>parseResponse\<close> returns false; the polls after it are not looked at. Each
  poll carries at most one byte, and the budget is the test \<open>now - startMillis < 1000\<close>
  on 32-bit unsigned numbers.
\<close>

theorem parseResponse_timeout:
  assumes "\<forall>pl\<in>set polls. in_time startMillis pl"
    and "\<not> in_time startMillis late"
    and "X \<notin> set (bytes_of polls) \<or>
         (\<exists>junk body. bytes_of polls = junk @ X # body \<and> X \<notin> set junk
            \<and> LF \<notin> set body \<and> length body \<le> 30)"
  shows "parseResponse atof X v startMillis (polls @ late # rest) calls =
     Some (Inr \<lparr>ok = False, measurement = v,
                bus = calls @ [RS485_receive, RS485_noReceive]\<rparr>)
   \<and> (in_time startMillis (t, a) \<longleftrightarrow> t - startMillis < 1000)"
proof -
  have "scan atof X startMillis (polls @ late # rest) parser_init = Some (Inr TimedOut)"
    by (rule scan_timeout [OF assms])
  then show ?thesis
    by (simp add: parseResponse_TimedOut in_time_def WEATHERBUSLITE_RESPONSE_TIMEOUT_def)
qed

text \<open>
  With code \<open>X\<close>: a stream without any \<open>X\<close>, and a stream whose frame \<open>X:3\<close> is
  still open at the timeout. In both the late poll has a byte available.
\<close>

theorem parseResponse_timeout_witness:
  "parseResponse atof_decimal (CHR ''X'') 42 0
     (deliver 999 (''T:1'' @ [LF] @ ''Y:2'') @ (1000, Some (CHR ''X'')) # deliver 0 (''X:3'' @ [LF])) [] =
   Some (Inr \<lparr>ok = False, measurement = 42, bus = [RS485_receive, RS485_noReceive]\<rparr>)
   \<and> parseResponse atof_decimal (CHR ''X'') 42 0
     (deliver 999 ''abX:3'' @ (1000, Some LF) # deliver 0 (''X:3'' @ [LF])) [] =
   Some (Inr \<lparr>ok = False, measurement = 42, bus = [RS485_receive, RS485_noReceive]\<rparr>)"
proof -
  have t: "\<forall>pl\<in>set (deliver 999 bs). in_time 0 pl" for bs
    by (rule in_time_deliver) (simp add: WEATHERBUSLITE_RESPONSE_TIMEOUT_def)
  have late: "\<not> in_time 0 (1000, a)" for a
    by (simp add: in_time_def WEATHERBUSLITE_RESPONSE_TIMEOUT_def)
  have "\<exists>junk body. ''abX:3'' = junk @ CHR ''X'' # body \<and> CHR ''X'' \<notin> set junk
            \<and> LF \<notin> set body \<and> length body \<le> 30"
    by (rule exI [of _ "''ab''"], rule exI [of _ "'':3''"]) simp
  with parseResponse_timeout [where polls = "deliver 999 ''abX:3''" and startMillis = 0
      and late = "(1000, Some LF)" and X = "CHR ''X''" and atof = atof_decimal and v = 42
      and rest = "deliver 0 (''X:3'' @ [LF])" and calls = "[]"]
    parseResponse_timeout [where polls = "deliver 999 (''T:1'' @ [LF] @ ''Y:2'')"
      and startMillis = 0 and late = "(1000, Some (CHR ''X''))" and X = "CHR ''X''"
      and atof = atof_decimal and v = 42
      and rest = "deliver 0 (''X:3'' @ [LF])" and calls = "[]"]
  show ?thesis by (simp add: t late)
qed

subsection \<open>The receive path\<close>

text \<open>
  Claim C5 says that every exit of \<open>parseResponse\<close> has disabled the receive path. The
  success exit has not: on the frame \<open>T:1\<close> the call returns true and the last call on
  the bus is \<open>RS485.receive()\<close>; \<open>RS485.noReceive()\<close> is reached only after the loop,
  on the way to \<open>return false\<close>.
\<close>

theorem parseResponse_success_keeps_receiving:
  "parseResponse atof (CHR ''T'') v s (deliver s (''T:1'' @ [LF]) @ rest) calls =
     Some (Inr \<lparr>ok = True, measurement = atof ''1'', bus = calls @ [RS485_receive]\<rparr>)"
  by (rule parseResponse_ReturnTrue [OF scan_T_1])

subsection \<open>The query encoder\<close>



subsection \<open>Fixed and custom queries\<close>

text \<open>
  Claim C7. Each of the nine fixed queries is \<open>queryCustom\<close> at its code, as a
  function of the caller's value, the clock, the polls and the bus: the same calls on
  the bus, the same flag, the same value. \<open>queryCustom\<close> with code \<open>Z\<close> on the answer
  \<open>Z:5.2\<close> succeeds with \<open>atof\<close> of \<open>5.2\<close>, which the decimal model reads as 5.2.
\<close>

theorem fixed_queries_are_queryCustom:
  "queryTemp atof = queryCustom atof (CHR ''T'')
   \<and> queryHumidity atof = queryCustom atof (CHR ''H'')
   \<and> queryPressure atof = queryCustom atof (CHR ''P'')
   \<and> queryAirQuality atof = queryCustom atof (CHR ''A'')
   \<and> queryUV atof = queryCustom atof (CHR ''U'')
   \<and> queryRainfall atof = queryCustom atof (CHR ''R'')
   \<and> queryWindSpeed atof = queryCustom atof (CHR ''W'')
   \<and> queryWindDirection atof = queryCustom atof (CHR ''D'')
   \<and> queryCanopyTemperature atof = queryCustom atof (CHR ''C'')
   \<and> queryCustom atof (CHR ''Z'') v s (deliver s (''Z:5.2'' @ [LF]) @ rest) calls =
       Some (Inr \<lparr>ok = True, measurement = atof ''5.2'',
                  bus = calls @ [RS485_beginTransmission, RS485_print ''?Z'', RS485_println,
                                 RS485_endTransmission, RS485_flush, Delay 2, RS485_receive]\<rparr>)
   \<and> atof_decimal ''5.2'' = 26 / 5"
proof -
  have "queryCustom atof (CHR ''Z'') v s (deliver s (''Z:5.2'' @ [LF]) @ rest) calls =
      Some (Inr \<lparr>ok = True, measurement = atof ''5.2'',
                 bus = sendQuery [CHR ''?'', CHR ''Z'', NUL] calls @ [RS485_receive]\<rparr>)"
    unfolding queryCustom_def by (rule parseResponse_ReturnTrue [OF scan_Z_5_2])
  then have "queryCustom atof (CHR ''Z'') v s (deliver s (''Z:5.2'' @ [LF]) @ rest) calls =
       Some (Inr \<lparr>ok = True, measurement = atof ''5.2'',
                  bus = calls @ [RS485_beginTransmission, RS485_print ''?Z'', RS485_println,
                                 RS485_endTransmission, RS485_flush, Delay 2, RS485_receive]\<rparr>)"
    by (simp only: sendQuery_code [of "CHR ''Z''" calls, simplified] append_assoc append.simps)
  with fixed_queries_custom [of atof] atof_decimal_5_2 show ?thesis
    by (intro conjI)
qed

subsection \<open>The output parameter on failure\<close>

text \<open>
  Claim C9. Whenever \<open>parseResponse\<close>, \<open>queryCustom\<close> or one of the nine fixed queries
  returns false, the caller's value is what it was before the call.
\<close>

theorem failed_query_keeps_value:
  assumes "\<not> ok r"
  shows "(parseResponse atof c v s polls calls = Some (Inr r) \<longrightarrow> measurement r = v)
     \<and> (queryCustom atof c v s polls calls = Some (Inr r) \<longrightarrow> measurement r = v)
     \<and> (\<forall>query \<in> set [queryTemp atof, queryHumidity atof, queryPressure atof,
            queryAirQuality atof, queryUV atof, queryRainfall atof, queryWindSpeed atof,
            queryWindDirection atof, queryCanopyTemperature atof].
          query v s polls calls = Some (Inr r) \<longrightarrow> measurement r = v)"
  using assms parseResponse_failed_value [of atof _ v s polls _ r]
  by (simp add: fixed_queries_custom queryCustom_def)

text \<open>
  A temperature query whose answer \<open>T:99\<close> is still open at the timeout: the value
  stays 42.
\<close>

theorem failed_query_keeps_value_witness:
  "\<exists>r. queryTemp atof_decimal 42 0 (deliver 0 ''T:99'' @ [(1000, None)]) [] = Some (Inr r)
       \<and> \<not> ok r \<and> measurement r = 42"
proof -
  have "\<exists>junk body. bytes_of (deliver 0 ''T:99'') = junk @ CHR ''T'' # body
      \<and> CHR ''T'' \<notin> set junk \<and> LF \<notin> set body \<and> length body \<le> 30"
    by (rule exI [of _ "[]"], rule exI [of _ "'':99''"]) simp
  then have "scan atof_decimal (CHR ''T'') 0 (deliver 0 ''T:99'' @ (1000, None) # []) parser_init
      = Some (Inr TimedOut)"
    by (intro scan_timeout in_time_same disjI2)
       (simp add: in_time_def WEATHERBUSLITE_RESPONSE_TIMEOUT_def)
  then have "queryTemp atof_decimal 42 0 (deliver 0 ''T:99'' @ [(1000, None)]) [] =
      Some (Inr \<lparr>ok = False, measurement = 42,
                 bus = sendQuery (''?T'' @ [NUL]) [] @ [RS485_receive, RS485_noReceive]\<rparr>)"
    unfolding queryTemp_def by (rule parseResponse_TimedOut)
  then obtain r where r: "queryTemp atof_decimal 42 0 (deliver 0 ''T:99'' @ [(1000, None)]) []
      = Some (Inr r)" "\<not> ok r"
    by simp
  from failed_query_keeps_value [OF r(2), of atof_decimal "CHR ''T''" 42 0
      "deliver 0 ''T:99'' @ [(1000, None)]" "[]"] r(1)
  have "measurement r = 42" by simp
  with r show ?thesis by blast
qed

subsection \<open>Buffer bounds\<close>

text \<open>
  Claim C10. In every reachable state of the machine the index is at most 31 and the
  buffer has its 32 bytes; while the start byte is awaited the index is 0. From such a
  state the \<open>switch\<close> never writes outside the buffer, whatever byte comes in; it
  leaves the index at most 31, and where it increments the index (the writes
  \<open>response[index++] = incoming\<close>) the byte went to an offset of at most 30. The
  reads of \<open>strchr\<close> and \<open>atof\<close> stay inside the buffer as well, so neither the loop
  from a reachable state nor \<open>parseResponse\<close> as a whole ever ends in \<open>OutOfBounds\<close>.
\<close>

theorem response_index_in_bounds:
  assumes "reachable c p"
  shows "index p \<le> 31 \<and> length (response p) = 32
     \<and> (state p = WAIT_FOR_START \<longrightarrow> index p = 0)
     \<and> (\<exists>p'. on_byte c incoming p = Inr p' \<and> index p' \<le> 31
            \<and> (index p' = index p \<or> index p' = index p + 1 \<and> index p \<le> 30))
     \<and> (\<exists>r. on_done atof p = Inr r)
     \<and> scan atof c s polls p \<noteq> Some (Inl OutOfBounds)
     \<and> parseResponse atof c v s polls calls \<noteq> Some (Inl OutOfBounds)"
proof -
  from assms have ok: "buffer_ok p" by (rule reachable_buffer_ok)
  from on_byte_buffer_ok [OF ok, of c incoming] obtain p'
    where p': "on_byte c incoming p = Inr p'" "buffer_ok p'"
      "index p' = index p \<or> index p' = index p + 1 \<and> index p < RESPONSE_SIZE - 1" by blast
  have "index p \<le> 31 \<and> length (response p) = 32 \<and> (state p = WAIT_FOR_START \<longrightarrow> index p = 0)"
    using ok by (simp add: buffer_ok_def RESPONSE_SIZE_def)
  moreover have "\<exists>p'. on_byte c incoming p = Inr p' \<and> index p' \<le> 31
            \<and> (index p' = index p \<or> index p' = index p + 1 \<and> index p \<le> 30)"
    using p' by (auto simp: buffer_ok_def RESPONSE_SIZE_def)
  moreover have "\<exists>r. on_done atof p = Inr r"
    by (rule on_done_total [OF ok])
  moreover have "scan atof c s polls p \<noteq> Some (Inl OutOfBounds)"
    by (rule scan_no_fault [OF ok])
  moreover have "parseResponse atof c v s polls calls \<noteq> Some (Inl OutOfBounds)"
    using scan_no_fault [OF buffer_ok_init, of atof c s polls OutOfBounds]
    by (auto simp: parseResponse_def split: option.splits sum.splits loop_exit.splits)
  ultimately show ?thesis by blast
qed

text \<open>The state after the bytes \<open>T\<close> and \<open>1\<close>, requested with code \<open>T\<close>.\<close>

theorem response_index_in_bounds_witness:
  "reachable (CHR ''T'') (reading ''T1'')
   \<and> index (reading ''T1'') \<le> 31 \<and> length (response (reading ''T1'')) = 32
   \<and> (\<exists>p'. on_byte (CHR ''T'') (CHR ''2'') (reading ''T1'') = Inr p' \<and> index p' \<le> 31)
   \<and> parseResponse atof_decimal (CHR ''T'') 0 0 (deliver 0 ''T12'') [] \<noteq> Some (Inl OutOfBounds)"
proof -
  have "reachable (CHR ''T'') (reading ''T'')"
    using reachable.byte [OF reachable.initial on_byte_init_start] by simp
  then have r: "reachable (CHR ''T'') (reading ''T1'')"
    using reachable.byte [OF _ on_byte_reading_more [of "''T''" "CHR ''1''" "CHR ''T''"]]
    by (simp add: RESPONSE_SIZE_def)
  from response_index_in_bounds [OF r, of "CHR ''2''" atof_decimal 0 "deliver 0 ''T12''" 0 "[]"] r
  show ?thesis by blast
qed

end
